theory Spec2Isabelle
  imports Complex_Main
begin

section \<open>BrowserPool (src/index.js, class BrowserPool)\<close>

text \<open>
  A browser handle is an opaque object; the pool only compares handles by identity
  (\<open>indexOf\<close>) and asks them \<open>isConnected()\<close>.  Handles are numbered; what
  \<open>isConnected()\<close> answers at the moment of a call is given by an oracle
  \<open>conn\<close>, since the browser process lives outside the pool.
\<close>

type_synonym browser = nat

datatype probe = Connected | Disconnected | ProbeThrows

datatype pool_error = ShuttingDown | CreationFailed | AcquisitionTimeout

text \<open>
  The functions stored in \<open>waitingQueue\<close>.  For the promise numbered \<open>p\<close> that
  \<open>acquireBrowser\<close> creates when it has to wait, \<open>Resolve p\<close> is the promise's own
  \<open>resolve\<close> function and \<open>Notify p\<close> is the arrow function
  \<^verbatim>\<open>(browser) => { clearTimeout(timeout); resolve(browser); }\<close>
  that is pushed on the queue.  They are two different function objects.
\<close>

datatype callback = Resolve nat | Notify nat

datatype promise = Pending | Fulfilled browser | Rejected pool_error

text \<open>What a queued callback is called with: a browser (\<open>releaseBrowser\<close>) or a
  rejected promise (\<open>shutdown\<close>).\<close>

datatype settle_arg = Handle browser | RejectedPromise pool_error

text \<open>
  The first five fields are the fields of the JavaScript object.  The others are the
  part of the event loop the pool's code creates: the promises handed to waiting
  callers, the armed acquisition timers, the \<open>acquireBrowser\<close> frames suspended in
  \<open>await this.createBrowser()\<close> (by their \<open>retryCount\<close>), the frames suspended in
  the 3 second pause before a retry (by the \<open>retryCount\<close> they will re-enter with),
  and the handles on which \<open>close()\<close> has been called.
\<close>

record pool =
  poolSize :: int
  browsers :: "browser list"
  availableBrowsers :: "browser list"
  waitingQueue :: "callback list"
  isShuttingDown :: bool
  promises :: "promise list"
  timers :: "nat list"
  creating :: "nat list"
  sleeping :: "nat list"
  closeCalls :: "browser list"

definition BrowserPool :: "int \<Rightarrow> pool" where
  "BrowserPool n =
     \<lparr>poolSize = n, browsers = [], availableBrowsers = [], waitingQueue = [],
      isShuttingDown = False, promises = [], timers = [], creating = [], sleeping = [],
      closeCalls = []\<rparr>"

text \<open>\<open>Array.prototype.indexOf\<close>: the first index holding the element, or \<open>-1\<close>.\<close>

fun indexOf :: "'a list \<Rightarrow> 'a \<Rightarrow> int" where
  "indexOf [] x = - 1"
| "indexOf (y # ys) x =
     (if y = x then 0 else if indexOf ys x > - 1 then indexOf ys x + 1 else - 1)"

text \<open>\<open>xs.splice(i, 1)\<close> for an index \<open>i > -1\<close>.\<close>

definition splice1 :: "'a list \<Rightarrow> int \<Rightarrow> 'a list" where
  "splice1 xs i = take (nat i) xs @ drop (Suc (nat i)) xs"

definition isBrowserHealthy :: "(browser \<Rightarrow> probe) \<Rightarrow> browser \<Rightarrow> bool" where
  "isBrowserHealthy conn b =
     (case conn b of Connected \<Rightarrow> True | Disconnected \<Rightarrow> False | ProbeThrows \<Rightarrow> False)"

definition removeBrowser :: "(browser \<Rightarrow> probe) \<Rightarrow> pool \<Rightarrow> browser \<Rightarrow> pool" where
  "removeBrowser conn s b =
     (let s1 = (if indexOf (browsers s) b > - 1
                then s\<lparr>browsers := splice1 (browsers s) (indexOf (browsers s) b)\<rparr>
                else s);
          s2 = (if indexOf (availableBrowsers s1) b > - 1
                then s1\<lparr>availableBrowsers :=
                          splice1 (availableBrowsers s1) (indexOf (availableBrowsers s1) b)\<rparr>
                else s1)
      in (case conn b of
            Connected \<Rightarrow> s2\<lparr>closeCalls := closeCalls s2 @ [b]\<rparr>
          | Disconnected \<Rightarrow> s2
          | ProbeThrows \<Rightarrow> s2))"

text \<open>Calling a promise's \<open>resolve\<close>/\<open>reject\<close>: only a pending promise changes.\<close>

definition settle :: "pool \<Rightarrow> nat \<Rightarrow> settle_arg \<Rightarrow> pool" where
  "settle s p a =
     (if p < length (promises s) \<and> promises s ! p = Pending
      then s\<lparr>promises := (promises s)[p :=
               (case a of Handle b \<Rightarrow> Fulfilled b | RejectedPromise e \<Rightarrow> Rejected e)]\<rparr>
      else s)"

fun invoke :: "pool \<Rightarrow> callback \<Rightarrow> settle_arg \<Rightarrow> pool" where
  "invoke s (Resolve p) a = settle s p a"
| "invoke s (Notify p) a = settle (s\<lparr>timers := removeAll p (timers s)\<rparr>) p a"

datatype acquire_status = Returned browser | Threw pool_error | AwaitCreate | Parked nat

lemma splice1_length: "length (splice1 xs i) \<le> length xs"
  by (simp add: splice1_def)

lemma removeBrowser_available_length:
  "length (availableBrowsers (removeBrowser conn s b)) \<le> length (availableBrowsers s)"
  by (simp add: removeBrowser_def Let_def splice1_length split: probe.splits)

text \<open>
  \<open>acquireBrowser(retryCount)\<close> from its entry to its first suspension point: it
  returns a browser, throws, suspends in \<open>await this.createBrowser()\<close>, or parks the
  caller on the waiting queue behind a 60 second timer.
\<close>

function acquire_enter :: "(browser \<Rightarrow> probe) \<Rightarrow> pool \<Rightarrow> nat \<Rightarrow> pool \<times> acquire_status" where
  "acquire_enter conn s retryCount =
     (if isShuttingDown s then (s, Threw ShuttingDown)
      else if availableBrowsers s \<noteq> [] then
        (if isBrowserHealthy conn (last (availableBrowsers s))
         then (s\<lparr>availableBrowsers := butlast (availableBrowsers s)\<rparr>,
               Returned (last (availableBrowsers s)))
         else acquire_enter conn
                (removeBrowser conn (s\<lparr>availableBrowsers := butlast (availableBrowsers s)\<rparr>)
                   (last (availableBrowsers s)))
                retryCount)
      else if int (length (browsers s)) < poolSize s
        then (s\<lparr>creating := creating s @ [retryCount]\<rparr>, AwaitCreate)
      else (s\<lparr>promises := promises s @ [Pending],
               timers := timers s @ [length (promises s)],
               waitingQueue := waitingQueue s @ [Notify (length (promises s))]\<rparr>,
            Parked (length (promises s))))"
  by pat_completeness auto
termination
proof (relation "measure (\<lambda>(conn, s, retryCount). length (availableBrowsers s))")
  show "wf (measure (\<lambda>(conn, s, retryCount). length (availableBrowsers s)))"
    by simp
next
  fix conn :: "browser \<Rightarrow> probe" and s :: pool and retryCount :: nat
  assume "availableBrowsers s \<noteq> []"
  then have "length (butlast (availableBrowsers s)) < length (availableBrowsers s)"
    by simp
  moreover have
    "length (availableBrowsers (removeBrowser conn
        (s\<lparr>availableBrowsers := butlast (availableBrowsers s)\<rparr>) (last (availableBrowsers s))))
      \<le> length (butlast (availableBrowsers s))"
    using removeBrowser_available_length
      [of conn "s\<lparr>availableBrowsers := butlast (availableBrowsers s)\<rparr>"]
    by simp
  ultimately show
    "((conn, removeBrowser conn (s\<lparr>availableBrowsers := butlast (availableBrowsers s)\<rparr>)
         (last (availableBrowsers s)), retryCount), (conn, s, retryCount))
     \<in> measure (\<lambda>(conn, s, retryCount). length (availableBrowsers s))"
    by simp
qed

declare acquire_enter.simps [simp del]

text \<open>The frame suspended in \<open>await this.createBrowser()\<close>, resumed with the new
  browser: \<open>this.browsers.push(browser); return browser\<close>.\<close>

definition acquire_created :: "pool \<Rightarrow> nat \<Rightarrow> browser \<Rightarrow> pool \<times> acquire_status" where
  "acquire_created s retryCount b =
     (s\<lparr>creating := remove1 retryCount (creating s), browsers := browsers s @ [b]\<rparr>,
      Returned b)"

text \<open>
  The same frame when \<open>createBrowser\<close> has rejected.  The inner \<open>catch\<close> pauses 3
  seconds and re-enters \<open>acquireBrowser(retryCount + 1)\<close> while \<open>retryCount < 2\<close>;
  otherwise it throws, into the outer \<open>catch\<close>, which would pause 2 seconds and
  re-enter under the same test \<open>retryCount < 2\<close> and so rethrows.
\<close>

datatype after_failure = PauseThenRetry nat | Rethrow pool_error

definition acquire_create_failed :: "pool \<Rightarrow> nat \<Rightarrow> pool \<times> after_failure" where
  "acquire_create_failed s retryCount =
     (if retryCount < 2
      then (s\<lparr>creating := remove1 retryCount (creating s),
               sleeping := sleeping s @ [retryCount + 1]\<rparr>, PauseThenRetry 3000)
      else if retryCount < 2
      then (s\<lparr>creating := remove1 retryCount (creating s),
               sleeping := sleeping s @ [retryCount + 1]\<rparr>, PauseThenRetry 2000)
      else (s\<lparr>creating := remove1 retryCount (creating s)\<rparr>, Rethrow CreationFailed))"

text \<open>After the pause: \<open>return this.acquireBrowser(retryCount + 1)\<close>.\<close>

definition acquire_wake :: "(browser \<Rightarrow> probe) \<Rightarrow> pool \<Rightarrow> nat \<Rightarrow> pool \<times> acquire_status" where
  "acquire_wake conn s retryCount =
     acquire_enter conn (s\<lparr>sleeping := remove1 retryCount (sleeping s)\<rparr>) retryCount"

text \<open>
  The 60 second timer of the waiter with promise \<open>p\<close> fires: the handler looks for
  \<open>resolve\<close> in \<open>waitingQueue\<close>, splices it out if found, and rejects the promise.
\<close>

definition waiter_timeout :: "pool \<Rightarrow> nat \<Rightarrow> pool" where
  "waiter_timeout s p =
     (let s1 = s\<lparr>timers := remove1 p (timers s)\<rparr>;
          s2 = (if indexOf (waitingQueue s1) (Resolve p) > - 1
                then s1\<lparr>waitingQueue :=
                          splice1 (waitingQueue s1) (indexOf (waitingQueue s1) (Resolve p))\<rparr>
                else s1)
      in settle s2 p (RejectedPromise AcquisitionTimeout))"

definition releaseBrowser :: "(browser \<Rightarrow> probe) \<Rightarrow> pool \<Rightarrow> browser \<Rightarrow> pool" where
  "releaseBrowser conn s b =
     (if isShuttingDown s then removeBrowser conn s b
      else if isBrowserHealthy conn b then
        (case waitingQueue s of
           resolve # rest \<Rightarrow> invoke (s\<lparr>waitingQueue := rest\<rparr>) resolve (Handle b)
         | [] \<Rightarrow> s\<lparr>availableBrowsers := availableBrowsers s @ [b]\<rparr>)
      else removeBrowser conn s b)"

text \<open>
  \<open>shutdown\<close> up to \<open>await Promise.all(closePromises)\<close>: the flag, every queued
  callback called with a rejected promise, the queue emptied, \<open>close()\<close> called on
  every connected browser.  \<open>shutdown_end\<close> is the rest, after the closes have settled
  or timed out.
\<close>

definition shutdown_begin :: "(browser \<Rightarrow> probe) \<Rightarrow> pool \<Rightarrow> pool" where
  "shutdown_begin conn s =
     (let s1 = s\<lparr>isShuttingDown := True\<rparr>;
          s2 = foldl (\<lambda>t resolve. invoke t resolve (RejectedPromise ShuttingDown))
                 s1 (waitingQueue s1);
          s3 = s2\<lparr>waitingQueue := []\<rparr>
      in s3\<lparr>closeCalls := closeCalls s3 @ filter (\<lambda>b. conn b = Connected) (browsers s3)\<rparr>)"

definition shutdown_end :: "pool \<Rightarrow> pool" where
  "shutdown_end s = s\<lparr>browsers := [], availableBrowsers := []\<rparr>"

text \<open>One successful round of the loop in \<open>initialize\<close>.\<close>

definition initialize_created :: "pool \<Rightarrow> browser \<Rightarrow> pool" where
  "initialize_created s b =
     s\<lparr>browsers := browsers s @ [b], availableBrowsers := availableBrowsers s @ [b]\<rparr>"

text \<open>
  The pool is used from one thread; its code runs in pieces between suspension points.
  \<open>pool_op\<close> lists the pieces, with what the outside world decides (which browser
  is connected, whether a creation succeeds, which timer fires); a piece that resumes a
  suspended frame runs only if that frame exists.
\<close>

datatype pool_op =
    Acquire "browser \<Rightarrow> probe"
  | CreateResolves nat browser
  | CreateRejects nat
  | RetryWakes "browser \<Rightarrow> probe" nat
  | Release "browser \<Rightarrow> probe" browser
  | TimerFires nat
  | ShutdownCalled "browser \<Rightarrow> probe"
  | ShutdownCloses
  | InitializeCreated browser

fun pool_step :: "pool \<Rightarrow> pool_op \<Rightarrow> pool" where
  "pool_step s (Acquire conn) = fst (acquire_enter conn s 0)"
| "pool_step s (CreateResolves rc b) =
     (if rc \<in> set (creating s) then fst (acquire_created s rc b) else s)"
| "pool_step s (CreateRejects rc) =
     (if rc \<in> set (creating s) then fst (acquire_create_failed s rc) else s)"
| "pool_step s (RetryWakes conn rc) =
     (if rc \<in> set (sleeping s) then fst (acquire_wake conn s rc) else s)"
| "pool_step s (Release conn b) = releaseBrowser conn s b"
| "pool_step s (TimerFires p) = (if p \<in> set (timers s) then waiter_timeout s p else s)"
| "pool_step s (ShutdownCalled conn) = shutdown_begin conn s"
| "pool_step s ShutdownCloses = (if isShuttingDown s then shutdown_end s else s)"
| "pool_step s (InitializeCreated b) = initialize_created s b"

definition pool_run :: "pool \<Rightarrow> pool_op list \<Rightarrow> pool" where
  "pool_run s ops = foldl pool_step s ops"


text \<open>Whether a queued function is one of the arrow functions \<open>acquireBrowser\<close> pushes.\<close>

fun is_notify :: "callback \<Rightarrow> bool" where
  "is_notify (Notify p) = True"
| "is_notify (Resolve p) = False"

text \<open>Two states of the outside world: every browser disconnected, every browser connected.\<close>

definition crashed :: "browser \<Rightarrow> probe" where "crashed b = Disconnected"
definition alive :: "browser \<Rightarrow> probe" where "alive b = Connected"

subsection \<open>Creating a browser, and \<open>acquireBrowser\<close> run without interleaving\<close>

text \<open>
  \<open>createBrowser\<close> launches a browser in its \<open>try\<close> block (Puppeteer, with the
  fallback to puppeteer-core inside) and retries in its \<open>catch\<close>.  Whether the
  \<open>k\<close>-th launch of the process succeeds is given by \<open>launch k\<close>: the new handle, or
  \<open>None\<close> when the \<open>try\<close> block throws.  The clock counts the launches made and
  records every pause (\<open>setTimeout\<close>, in milliseconds) in order.
\<close>

record clock =
  attempts :: nat
  delays :: "nat list"

function createBrowser :: "(nat \<Rightarrow> browser option) \<Rightarrow> clock \<Rightarrow> nat \<Rightarrow> browser option \<times> clock" where
  "createBrowser launch w retryCount =
     (case launch (attempts w) of
        Some b \<Rightarrow> (Some b, w\<lparr>attempts := attempts w + 1\<rparr>)
      | None \<Rightarrow>
          if retryCount < 3
          then createBrowser launch
                 (w\<lparr>attempts := attempts w + 1,
                    delays := delays w @ [2000 * 2 ^ retryCount]\<rparr>)
                 (retryCount + 1)
          else (None, w\<lparr>attempts := attempts w + 1\<rparr>))"
  by pat_completeness auto
termination
  by (relation "measure (\<lambda>(launch, w, retryCount). 3 - retryCount)") auto

declare createBrowser.simps [simp del]

text \<open>
  One call of \<open>acquireBrowser()\<close> followed to its end when nothing else runs in
  between: the pieces above, joined by \<open>createBrowser\<close> and the pauses.  A caller that
  is parked stays parked.
\<close>

function acquire_continue ::
  "(nat \<Rightarrow> browser option) \<Rightarrow> (browser \<Rightarrow> probe) \<Rightarrow> pool \<times> clock \<Rightarrow> nat \<Rightarrow> acquire_status
     \<Rightarrow> (pool \<times> clock) \<times> acquire_status" where
  "acquire_continue launch conn (s, w) retryCount status =
     (if status = AwaitCreate then
        (case createBrowser launch w 0 of
           (Some b, w1) \<Rightarrow> ((fst (acquire_created s retryCount b), w1), Returned b)
         | (None, w1) \<Rightarrow>
             (case snd (acquire_create_failed s retryCount) of
                Rethrow e \<Rightarrow> ((fst (acquire_create_failed s retryCount), w1), Threw e)
              | PauseThenRetry ms \<Rightarrow>
                  acquire_continue launch conn
                    (fst (acquire_wake conn (fst (acquire_create_failed s retryCount))
                            (retryCount + 1)),
                     w1\<lparr>delays := delays w1 @ [ms]\<rparr>)
                    (retryCount + 1)
                    (snd (acquire_wake conn (fst (acquire_create_failed s retryCount))
                            (retryCount + 1)))))
      else ((s, w), status))"
  by pat_completeness auto
termination
proof (relation "measure (\<lambda>(launch, conn, sw, retryCount, status). 3 - retryCount)")
  show "wf (measure (\<lambda>(launch, conn, sw, retryCount, status). 3 - retryCount))"
    by simp
next
  fix launch :: "nat \<Rightarrow> browser option" and conn :: "browser \<Rightarrow> probe"
    and s :: pool and w :: clock and retryCount :: nat and ms :: nat
    and status :: acquire_status and w1 :: clock
  assume "snd (acquire_create_failed s retryCount) = PauseThenRetry ms"
  then have "retryCount < 2"
    by (simp add: acquire_create_failed_def split: if_splits)
  then show
    "((launch, conn,
       (fst (acquire_wake conn (fst (acquire_create_failed s retryCount)) (retryCount + 1)),
        w1\<lparr>delays := delays w1 @ [ms]\<rparr>),
       retryCount + 1,
       snd (acquire_wake conn (fst (acquire_create_failed s retryCount)) (retryCount + 1))),
      (launch, conn, (s, w), retryCount, status))
     \<in> measure (\<lambda>(launch, conn, sw, retryCount, status). 3 - retryCount)"
    by simp
qed

declare acquire_continue.simps [simp del]

definition acquireBrowser ::
  "(nat \<Rightarrow> browser option) \<Rightarrow> (browser \<Rightarrow> probe) \<Rightarrow> pool \<times> clock
     \<Rightarrow> (pool \<times> clock) \<times> acquire_status" where
  "acquireBrowser launch conn sw =
     acquire_continue launch conn (fst (acquire_enter conn (fst sw) 0), snd sw) 0
       (snd (acquire_enter conn (fst sw) 0))"

text \<open>The launcher that fails \<open>n\<close> times and then succeeds, and the clock at start.\<close>

definition fails_first :: "nat \<Rightarrow> nat \<Rightarrow> browser option" where
  "fails_first n k = (if k < n then None else Some k)"

definition clock0 :: clock where
  "clock0 = \<lparr>attempts = 0, delays = []\<rparr>"

text \<open>The pool states in which \<open>acquireBrowser\<close> takes the creation branch.\<close>

definition must_create :: "pool \<Rightarrow> bool" where
  "must_create s \<longleftrightarrow>
     \<not> isShuttingDown s \<and> availableBrowsers s = [] \<and> int (length (browsers s)) < poolSize s"

section \<open>RequestQueue (src/index.js, class RequestQueue)\<close>

text \<open>
  A queued entry \<^verbatim>\<open>{ handler, resolve, reject }\<close> is named by its submission number:
  the \<open>n\<close>-th call of \<open>addRequest\<close> queues entry \<open>n\<close> and returns promise \<open>n\<close>.
  The fields \<open>maxConcurrent\<close>, \<open>running\<close> and \<open>queue\<close> are those of the object; the
  others record what the event loop holds: how many requests were added, which handlers
  were called (in call order), which of them are still awaited, and the state of the
  promise each \<open>addRequest\<close> returned.
\<close>

datatype handler_result = HandlerReturns | HandlerThrows

datatype request_promise = RequestPending | RequestResolved | RequestRejected

record request_queue =
  maxConcurrent :: int
  running :: int
  queue :: "nat list"
  added :: nat
  called :: "nat list"
  awaited :: "nat list"
  settled :: "request_promise list"

definition RequestQueue :: "int \<Rightarrow> request_queue" where
  "RequestQueue n =
     \<lparr>maxConcurrent = n, running = 0, queue = [], added = 0, called = [], awaited = [],
      settled = []\<rparr>"

text \<open>\<open>processQueue\<close> up to its \<open>await handler()\<close>.\<close>

definition processQueue :: "request_queue \<Rightarrow> request_queue" where
  "processQueue s =
     (if running s \<ge> maxConcurrent s \<or> queue s = [] then s
      else s\<lparr>running := running s + 1,
             queue := tl (queue s),
             called := called s @ [hd (queue s)],
             awaited := awaited s @ [hd (queue s)]\<rparr>)"

definition addRequest :: "request_queue \<Rightarrow> request_queue" where
  "addRequest s =
     processQueue (s\<lparr>queue := queue s @ [added s],
                     settled := settled s @ [RequestPending],
                     added := added s + 1\<rparr>)"

text \<open>
  \<open>processQueue\<close> from the moment the awaited handler of entry \<open>t\<close> settles: the
  \<open>try\<close> resolves the entry's promise, the \<open>catch\<close> rejects it, and the
  \<open>finally\<close> decrements \<open>running\<close> and calls \<open>processQueue\<close> again.
\<close>

definition handler_settles :: "request_queue \<Rightarrow> nat \<Rightarrow> handler_result \<Rightarrow> request_queue" where
  "handler_settles s t r =
     processQueue
       (s\<lparr>awaited := remove1 t (awaited s),
          settled := (settled s)[t := (case r of HandlerReturns \<Rightarrow> RequestResolved
                                        | HandlerThrows \<Rightarrow> RequestRejected)],
          running := running s - 1\<rparr>)"

datatype queue_op = AddRequest | HandlerSettles nat handler_result

fun queue_step :: "request_queue \<Rightarrow> queue_op \<Rightarrow> request_queue" where
  "queue_step s AddRequest = addRequest s"
| "queue_step s (HandlerSettles t r) =
     (if t \<in> set (awaited s) then handler_settles s t r else s)"

definition queue_run :: "request_queue \<Rightarrow> queue_op list \<Rightarrow> request_queue" where
  "queue_run s evs = foldl queue_step s evs"

text \<open>What every reachable state of the queue satisfies.\<close>

definition queue_inv :: "request_queue \<Rightarrow> bool" where
  "queue_inv s \<longleftrightarrow>
     running s = int (length (awaited s)) \<and>
     running s \<le> maxConcurrent s \<and>
     called s @ queue s = [0..<added s] \<and>
     length (settled s) = added s"

section \<open>SimpleCache and the cache key (src/index.js, class SimpleCache, GET /screenshot)\<close>

text \<open>
  The \<open>Map\<close> from key to \<^verbatim>\<open>{ value, expiresAt }\<close> is a partial function; \<open>Date.now()\<close>
  is passed in as \<open>now\<close>.  \<open>get\<close> returns \<open>null\<close> (here \<open>None\<close>) or the stored value,
  together with the cache it leaves behind.
\<close>

record 'v cache_item =
  item_value :: 'v
  expiresAt :: int

record 'v simple_cache =
  cache :: "string \<rightharpoonup> 'v cache_item"
  ttl :: int

definition SimpleCache :: "int \<Rightarrow> 'v simple_cache" where
  "SimpleCache t = \<lparr>cache = Map.empty, ttl = t\<rparr>"

definition SimpleCache_set :: "int \<Rightarrow> string \<Rightarrow> 'v \<Rightarrow> 'v simple_cache \<Rightarrow> 'v simple_cache" where
  "SimpleCache_set now key v c =
     c\<lparr>cache := (cache c)(key \<mapsto> \<lparr>item_value = v, expiresAt = now + ttl c\<rparr>)\<rparr>"

definition SimpleCache_get :: "int \<Rightarrow> string \<Rightarrow> 'v simple_cache \<Rightarrow> 'v option \<times> 'v simple_cache" where
  "SimpleCache_get now key c =
     (case cache c key of
        None \<Rightarrow> (None, c)
      | Some item \<Rightarrow>
          if now > expiresAt item then (None, c\<lparr>cache := (cache c)(key := None)\<rparr>)
          else (Some (item_value item), c))"

definition SimpleCache_clear :: "'v simple_cache \<Rightarrow> 'v simple_cache" where
  "SimpleCache_clear c = c\<lparr>cache := Map.empty\<rparr>"







section \<open>Page readiness (src/index.js, waitForPageLoad and its helpers)\<close>

text \<open>
  What the page does is outside the code: whether a \<open>waitForFunction\<close> resolves or
  rejects (a timeout, or any other error), what each cookie selector finds, what
  \<open>document.body.innerHTML.length\<close> is at the \<open>i\<close>-th sample (\<open>None\<close> when
  \<open>page.evaluate\<close> rejects), and which \<open>scrollHeight\<close> and \<open>innerHeight\<close> the page
  reports (\<open>BodyMissing\<close> when \<open>document.body\<close> is null and the evaluation throws).
  JavaScript numbers are modelled as real numbers.
\<close>

datatype call_result = Resolves | Rejects

datatype cookie_probe =
  QueryRejects | NoButton | VisibilityRejects | NotVisible | ClickRejects | Clicked

datatype page_metrics = BodyMissing | Metrics real real

record page =
  domComplete :: call_result
  mainContent :: call_result
  cookieButton :: "nat \<Rightarrow> cookie_probe"
  networkIdle :: call_result
  contentLength :: "nat \<Rightarrow> int option"
  metrics :: page_metrics
  imagesLoaded :: call_result
  iframesLoaded :: call_result
  criticalContent :: call_result









text \<open>
  \<open>triggerLazyLoading\<close>: the \<open>while\<close> loop that runs in the page, counting its
  \<open>scrollBy\<close> calls.  The loop has no bound of its own, so a run that never leaves it is
  the value \<open>None\<close>.
\<close>

partial_function (option) scroll_loop :: "real \<Rightarrow> real \<Rightarrow> real \<Rightarrow> nat \<Rightarrow> nat option" where
  "scroll_loop scrollHeight viewportHeight currentPosition scrolls =
     (if currentPosition < scrollHeight - viewportHeight
      then scroll_loop scrollHeight viewportHeight
             (currentPosition + viewportHeight * 0.8) (Suc scrolls)
      else Some scrolls)"

datatype lazy_result = ScrolledBack nat | LazyLoadingFailed

definition triggerLazyLoading :: "page \<Rightarrow> lazy_result option" where
  "triggerLazyLoading p =
     (case metrics p of
        BodyMissing \<Rightarrow> Some LazyLoadingFailed
      | Metrics scrollHeight viewportHeight \<Rightarrow>
          (case scroll_loop scrollHeight viewportHeight 0 0 of
             None \<Rightarrow> None
           | Some n \<Rightarrow> Some (ScrolledBack n)))"













section \<open>Properties\<close>

subsection \<open>BrowserPool: shutdown, capacity, waiters, release\<close>

text \<open>Unfolding the operations on a concrete pool.\<close>

lemmas pool_eval =
  pool_run_def BrowserPool_def initialize_created_def crashed_def alive_def
  isBrowserHealthy_def removeBrowser_def splice1_def acquire_created_def
  acquire_enter.simps waiter_timeout_def settle_def Let_def releaseBrowser_def

lemma settle_flag [simp]: "isShuttingDown (settle s p a) = isShuttingDown s"
  by (simp add: settle_def)

lemma invoke_flag [simp]: "isShuttingDown (invoke s cb a) = isShuttingDown s"
  by (cases cb) simp_all

lemma removeBrowser_flag [simp]: "isShuttingDown (removeBrowser conn s b) = isShuttingDown s"
  by (simp add: removeBrowser_def Let_def split: probe.splits)

lemma foldl_invoke_flag [simp]:
  "isShuttingDown (foldl (\<lambda>t cb. invoke t cb a) s cbs) = isShuttingDown s"
  by (induction cbs arbitrary: s) simp_all

lemma acquire_enter_flag [simp]:
  "isShuttingDown (fst (acquire_enter conn s rc)) = isShuttingDown s"
proof (induction conn s rc rule: acquire_enter.induct)
  case (1 conn s rc)
  then show ?case
    by (subst acquire_enter.simps) simp
qed

lemma acquire_enter_shutting_down:
  "isShuttingDown s \<Longrightarrow> acquire_enter conn s rc = (s, Threw ShuttingDown)"
  by (subst acquire_enter.simps) simp

lemma releaseBrowser_flag [simp]:
  "isShuttingDown (releaseBrowser conn s b) = isShuttingDown s"
  by (simp add: releaseBrowser_def split: list.splits)

lemma waiter_timeout_flag [simp]: "isShuttingDown (waiter_timeout s p) = isShuttingDown s"
  by (simp add: waiter_timeout_def Let_def)

lemma shutdown_begin_flag [simp]: "isShuttingDown (shutdown_begin conn s)"
  by (simp add: shutdown_begin_def Let_def)

lemma pool_step_keeps_flag: "isShuttingDown s \<Longrightarrow> isShuttingDown (pool_step s ev)"
  by (cases ev)
    (simp_all add: acquire_created_def acquire_create_failed_def acquire_wake_def
      shutdown_end_def initialize_created_def)

lemma pool_run_keeps_flag: "isShuttingDown s \<Longrightarrow> isShuttingDown (pool_run s evs)"
  unfolding pool_run_def
  by (induction evs arbitrary: s) (simp_all add: pool_step_keeps_flag)

text \<open>
  C9.  \<open>shutdown\<close> sets \<open>isShuttingDown\<close>, and no operation of the pool clears it:
  after any further sequence of acquisitions, creations that complete or fail, retries,
  releases, timers, further shutdowns and even added browsers, the flag is still set and
  \<open>acquireBrowser\<close> throws "shutting down" at once, leaving the pool as it was.  The idle
  timer of \<open>scheduleCleanup\<close> calls this same \<open>shutdown\<close>.
\<close>

theorem shutdown_is_permanent:
  "isShuttingDown (pool_run (shutdown_begin conn s) evs) \<and>
   acquire_enter conn' (pool_run (shutdown_begin conn s) evs) retryCount =
     (pool_run (shutdown_begin conn s) evs, Threw ShuttingDown)"
  by (simp add: pool_run_keeps_flag acquire_enter_shutting_down)

text \<open>
  C1 (the pool's bound fails under interleaving).  A pool of size 1 holds one browser,
  which has crashed.  Two requests call \<open>acquireBrowser\<close> before either creation
  completes: the first removes the crashed browser and, seeing \<open>0 < poolSize\<close>, suspends
  in \<open>createBrowser\<close>; the second sees the same \<open>0 < poolSize\<close> and suspends as well.
  Both creations complete and both browsers are pushed: \<open>browsers\<close> has length 2 in a
  pool of size 1.
\<close>

theorem pool_size_exceeded_by_concurrent_acquires:
  "browsers (pool_run (BrowserPool 1)
      [InitializeCreated 0, Acquire crashed, Acquire crashed,
       CreateResolves 0 1, CreateResolves 0 2]) = [1, 2] \<and>
   poolSize (pool_run (BrowserPool 1)
      [InitializeCreated 0, Acquire crashed, Acquire crashed,
       CreateResolves 0 1, CreateResolves 0 2]) = 1 \<and>
   \<not> int (length (browsers (pool_run (BrowserPool 1)
      [InitializeCreated 0, Acquire crashed, Acquire crashed,
       CreateResolves 0 1, CreateResolves 0 2]))) \<le>
     poolSize (pool_run (BrowserPool 1)
      [InitializeCreated 0, Acquire crashed, Acquire crashed,
       CreateResolves 0 1, CreateResolves 0 2])"
  by (simp add: pool_eval)

lemma indexOf_found: "indexOf xs x > - 1 \<longleftrightarrow> x \<in> set xs"
  by (induction xs) auto

lemma settle_waitingQueue [simp]: "waitingQueue (settle s p a) = waitingQueue s"
  by (simp add: settle_def)

lemma invoke_waitingQueue [simp]: "waitingQueue (invoke s cb a) = waitingQueue s"
  by (cases cb) simp_all

lemma removeBrowser_waitingQueue [simp]:
  "waitingQueue (removeBrowser conn s b) = waitingQueue s"
  by (simp add: removeBrowser_def Let_def split: probe.splits)

lemma acquire_enter_queue_notify:
  "list_all is_notify (waitingQueue s) \<Longrightarrow>
   list_all is_notify (waitingQueue (fst (acquire_enter conn s rc)))"
proof (induction conn s rc rule: acquire_enter.induct)
  case (1 conn s rc)
  then show ?case
    by (subst acquire_enter.simps) simp
qed

lemma splice1_list_all: "list_all P xs \<Longrightarrow> list_all P (splice1 xs i)"
  by (auto simp: splice1_def list_all_iff dest: in_set_takeD in_set_dropD)

lemma pool_step_queue_notify:
  assumes "list_all is_notify (waitingQueue s)"
  shows "list_all is_notify (waitingQueue (pool_step s ev))"
proof (cases ev)
  case (Acquire conn)
  with assms show ?thesis by (simp add: acquire_enter_queue_notify)
next
  case (CreateResolves rc b)
  with assms show ?thesis by (simp add: acquire_created_def)
next
  case (CreateRejects rc)
  with assms show ?thesis by (simp add: acquire_create_failed_def)
next
  case (RetryWakes conn rc)
  with assms show ?thesis by (simp add: acquire_wake_def acquire_enter_queue_notify)
next
  case (Release conn b)
  with assms show ?thesis by (cases "waitingQueue s") (simp_all add: releaseBrowser_def)
next
  case (TimerFires p)
  with assms show ?thesis by (simp add: waiter_timeout_def Let_def splice1_list_all)
next
  case (ShutdownCalled conn)
  then show ?thesis by (simp add: shutdown_begin_def Let_def)
next
  case ShutdownCloses
  with assms show ?thesis by (simp add: shutdown_end_def)
next
  case (InitializeCreated b)
  with assms show ?thesis by (simp add: initialize_created_def)
qed

lemma pool_run_queue_notify:
  "list_all is_notify (waitingQueue s) \<Longrightarrow> list_all is_notify (waitingQueue (pool_run s evs))"
  unfolding pool_run_def
  by (induction evs arbitrary: s) (simp_all add: pool_step_queue_notify)

lemma waiter_timeout_finds_nothing:
  assumes "list_all is_notify (waitingQueue s)"
  shows "waitingQueue (waiter_timeout s p) = waitingQueue s"
proof -
  from assms have "Resolve p \<notin> set (waitingQueue s)"
    by (auto simp: list_all_iff)
  then have "\<not> indexOf (waitingQueue s) (Resolve p) > - 1"
    by (simp add: indexOf_found)
  then show ?thesis
    by (simp add: waiter_timeout_def Let_def)
qed

text \<open>
  C2 (a waiter that times out is not removed).  The timeout handler looks for
  \<open>resolve\<close> in \<open>waitingQueue\<close>, but the queue only ever holds the wrapping arrow
  functions: in every state the pool can reach, \<open>indexOf\<close> answers \<open>-1\<close>, nothing is
  spliced, and the queue after the handler is the queue before it.  For instance, with a
  pool of size 1 whose browser is in use, a second \<open>acquireBrowser\<close> parks a waiter;
  when its 60 second timer fires the promise is rejected and the waiter is still queued.
\<close>

theorem timed_out_waiter_stays_queued:
  "waitingQueue (waiter_timeout (pool_run (BrowserPool n) evs) p)
     = waitingQueue (pool_run (BrowserPool n) evs) \<and>
   waitingQueue (pool_run (BrowserPool 1)
      [InitializeCreated 0, Acquire alive, Acquire alive, TimerFires 0]) = [Notify 0] \<and>
   promises (pool_run (BrowserPool 1)
      [InitializeCreated 0, Acquire alive, Acquire alive, TimerFires 0])
     = [Rejected AcquisitionTimeout]"
proof -
  have "list_all is_notify (waitingQueue (BrowserPool n))"
    by (simp add: BrowserPool_def)
  then have "list_all is_notify (waitingQueue (pool_run (BrowserPool n) evs))"
    by (rule pool_run_queue_notify)
  then have general: "waitingQueue (waiter_timeout (pool_run (BrowserPool n) evs) p)
     = waitingQueue (pool_run (BrowserPool n) evs)"
    by (rule waiter_timeout_finds_nothing)
  have queued: "waitingQueue (pool_run (BrowserPool 1)
      [InitializeCreated 0, Acquire alive, Acquire alive, TimerFires 0]) = [Notify 0]"
    by (simp add: pool_eval)
  have rejected: "promises (pool_run (BrowserPool 1)
      [InitializeCreated 0, Acquire alive, Acquire alive, TimerFires 0])
     = [Rejected AcquisitionTimeout]"
    by (simp add: pool_eval)
  from general queued rejected show ?thesis by simp
qed


















subsection \<open>Creation retries inside \<open>createBrowser\<close> and around it in \<open>acquireBrowser\<close>\<close>

lemma four_failures_unfold:
  assumes "\<forall>k<4. launch (a + k) = None"
  shows "launch a = None" "launch (Suc a) = None" "launch (Suc (Suc a)) = None"
    "launch (Suc (Suc (Suc a))) = None"
  using assms [rule_format, of 0] assms [rule_format, of 1] assms [rule_format, of 2]
    assms [rule_format, of 3]
  by (simp_all add: numeral_2_eq_2 numeral_3_eq_3)

lemma createBrowser_four_failures:
  assumes "\<forall>k<4. launch (attempts w + k) = None"
  shows "createBrowser launch w 0 =
           (None, w\<lparr>attempts := attempts w + 4, delays := delays w @ [2000, 4000, 8000]\<rparr>)"
  using four_failures_unfold [OF assms]
  by (simp add: createBrowser.simps)

lemma createBrowser_some_success:
  assumes "\<not> (\<forall>k<4. launch (attempts w + k) = None)"
  shows "\<exists>b. fst (createBrowser launch w 0) = Some b"
proof (rule ccontr)
  assume n: "\<not> (\<exists>b. fst (createBrowser launch w 0) = Some b)"
  have f0: "launch (attempts w) = None"
    using n by (cases "launch (attempts w)") (simp_all add: createBrowser.simps)
  have f1: "launch (Suc (attempts w)) = None"
    using n f0 by (cases "launch (Suc (attempts w))") (simp_all add: createBrowser.simps)
  have f2: "launch (Suc (Suc (attempts w))) = None"
    using n f0 f1
    by (cases "launch (Suc (Suc (attempts w)))") (simp_all add: createBrowser.simps)
  have f3: "launch (Suc (Suc (Suc (attempts w)))) = None"
    using n f0 f1 f2
    by (cases "launch (Suc (Suc (Suc (attempts w))))") (simp_all add: createBrowser.simps)
  have "\<forall>k<4. launch (attempts w + k) = None"
  proof (intro allI impI)
    fix k :: nat
    assume "k < 4"
    then have "k = 0 \<or> k = Suc 0 \<or> k = Suc (Suc 0) \<or> k = Suc (Suc (Suc 0))" by arith
    with f0 f1 f2 f3 show "launch (attempts w + k) = None" by auto
  qed
  with assms show False by simp
qed

lemma createBrowser_fails_iff:
  "fst (createBrowser launch w 0) = None \<longleftrightarrow> (\<forall>k<4. launch (attempts w + k) = None)"
proof
  assume "fst (createBrowser launch w 0) = None"
  then show "\<forall>k<4. launch (attempts w + k) = None"
    using createBrowser_some_success [of launch w] by fastforce
next
  assume "\<forall>k<4. launch (attempts w + k) = None"
  then show "fst (createBrowser launch w 0) = None"
    by (simp add: createBrowser_four_failures)
qed

lemma acquire_enter_must_create:
  "must_create s \<Longrightarrow>
   acquire_enter conn s retryCount = (s\<lparr>creating := creating s @ [retryCount]\<rparr>, AwaitCreate)"
  by (subst acquire_enter.simps) (simp add: must_create_def)

lemma must_create_bookkeeping [simp]:
  "must_create (s\<lparr>creating := xs\<rparr>) = must_create s"
  "must_create (s\<lparr>sleeping := ys\<rparr>) = must_create s"
  by (simp_all add: must_create_def)

lemma all_below_add:
  fixes a m n :: nat
  shows "(\<forall>k<m + n. P (a + k)) \<longleftrightarrow> (\<forall>k<m. P (a + k)) \<and> (\<forall>k<n. P (a + m + k))"
proof (intro iffI conjI allI impI)
  fix k assume h: "\<forall>k<m + n. P (a + k)" and "k < m"
  then have "k < m + n" by simp
  with h show "P (a + k)" by blast
next
  fix k assume h: "\<forall>k<m + n. P (a + k)" and "k < n"
  then have "m + k < m + n" by simp
  with h have "P (a + (m + k))" by blast
  then show "P (a + m + k)" by (simp add: add.assoc)
next
  fix k assume h: "(\<forall>k<m. P (a + k)) \<and> (\<forall>k<n. P (a + m + k))" and k: "k < m + n"
  show "P (a + k)"
  proof (cases "k < m")
    case True
    with h show ?thesis by simp
  next
    case False
    with k have "k - m < n" and "a + m + (k - m) = a + k" by simp_all
    with h show ?thesis by metis
  qed
qed

text \<open>One round of \<open>acquireBrowser\<close> in such a state, by the outcome of \<open>createBrowser\<close>.\<close>

lemma acquire_continue_created:
  assumes "fst (createBrowser launch w 0) = Some b"
  shows "acquire_continue launch conn (s, w) retryCount AwaitCreate =
           ((fst (acquire_created s retryCount b), snd (createBrowser launch w 0)), Returned b)"
  using assms
  by (subst acquire_continue.simps) (simp add: split_beta split: option.splits prod.splits)

lemma acquire_continue_last_failure:
  assumes "\<forall>k<4. launch (attempts w + k) = None"
  shows "acquire_continue launch conn (s, w) (Suc (Suc 0)) AwaitCreate =
           ((s\<lparr>creating := remove1 (Suc (Suc 0)) (creating s)\<rparr>,
             w\<lparr>attempts := attempts w + 4, delays := delays w @ [2000, 4000, 8000]\<rparr>),
            Threw CreationFailed)"
  by (subst acquire_continue.simps)
    (simp add: createBrowser_four_failures [OF assms] acquire_create_failed_def)

lemma acquire_continue_retry:
  assumes "\<forall>k<4. launch (attempts w + k) = None" and "retryCount < 2" and "must_create s"
  shows "acquire_continue launch conn (s, w) retryCount AwaitCreate =
           acquire_continue launch conn
             (s\<lparr>creating := remove1 retryCount (creating s) @ [Suc retryCount],
                sleeping := remove1 (Suc retryCount) (sleeping s @ [Suc retryCount])\<rparr>,
              w\<lparr>attempts := attempts w + 4,
                delays := delays w @ [2000, 4000, 8000, 3000]\<rparr>)
             (Suc retryCount) AwaitCreate"
proof -
  let ?s1 = "s\<lparr>creating := remove1 retryCount (creating s),
                sleeping := sleeping s @ [Suc retryCount]\<rparr>"
  from assms(2) have cf: "acquire_create_failed s retryCount = (?s1, PauseThenRetry 3000)"
    by (simp add: acquire_create_failed_def)
  from assms(3) have "must_create (?s1\<lparr>sleeping := remove1 (Suc retryCount) (sleeping ?s1)\<rparr>)"
    by simp
  then have wk: "acquire_wake conn ?s1 (Suc retryCount) =
      (s\<lparr>creating := remove1 retryCount (creating s) @ [Suc retryCount],
         sleeping := remove1 (Suc retryCount) (sleeping s @ [Suc retryCount])\<rparr>, AwaitCreate)"
    unfolding acquire_wake_def
    by (subst acquire_enter_must_create) simp_all
  show ?thesis
    by (subst acquire_continue.simps)
      (simp add: createBrowser_four_failures [OF assms(1)] cf wk)
qed

lemma some_launch_succeeds:
  fixes a m n :: nat
  assumes "\<not> (\<forall>k<m. launch (a + k) = None)" and "m \<le> n"
  shows "\<not> (\<forall>k<n. launch (a + k) = None)"
proof
  assume every: "\<forall>k<n. launch (a + k) = None"
  have "\<forall>k<m. launch (a + k) = None"
  proof (intro allI impI)
    fix k :: nat
    assume "k < m"
    with assms(2) have "k < n" by simp
    with every show "launch (a + k) = None" by simp
  qed
  with assms(1) show False by simp
qed

lemma acquire_continue_round2:
  assumes "must_create s"
  shows "snd (acquire_continue launch conn (s, w) (Suc (Suc 0)) AwaitCreate) = Threw CreationFailed
           \<longleftrightarrow> (\<forall>k<4. launch (attempts w + k) = None)"
proof (cases "\<forall>k<4. launch (attempts w + k) = None")
  case True
  then show ?thesis by (simp add: acquire_continue_last_failure)
next
  case False
  then obtain b where "fst (createBrowser launch w 0) = Some b"
    using createBrowser_some_success [of launch w] by blast
  then have "snd (acquire_continue launch conn (s, w) (Suc (Suc 0)) AwaitCreate) = Returned b"
    by (simp only: acquire_continue_created snd_conv)
  with False show ?thesis by simp
qed

lemma acquire_continue_round1:
  assumes "must_create s"
  shows "snd (acquire_continue launch conn (s, w) (Suc 0) AwaitCreate) = Threw CreationFailed
           \<longleftrightarrow> (\<forall>k<8. launch (attempts w + k) = None)"
proof (cases "\<forall>k<4. launch (attempts w + k) = None")
  case True
  have split: "(\<forall>k<8. launch (attempts w + k) = None) \<longleftrightarrow>
      (\<forall>k<4. launch (attempts w + k) = None) \<and> (\<forall>k<4. launch (attempts w + 4 + k) = None)"
    using all_below_add [of 4 4 "\<lambda>i. launch i = None" "attempts w"] by simp
  from True assms show ?thesis
    unfolding split
    by (subst acquire_continue_retry) (simp_all add: acquire_continue_round2)
next
  case False
  then obtain b where "fst (createBrowser launch w 0) = Some b"
    using createBrowser_some_success [of launch w] by blast
  then have "snd (acquire_continue launch conn (s, w) (Suc 0) AwaitCreate) = Returned b"
    by (simp only: acquire_continue_created snd_conv)
  moreover from False have "\<not> (\<forall>k<8. launch (attempts w + k) = None)"
    by (rule some_launch_succeeds) simp
  ultimately show ?thesis by simp
qed

lemma acquire_continue_round0:
  assumes "must_create s"
  shows "snd (acquire_continue launch conn (s, w) 0 AwaitCreate) = Threw CreationFailed
           \<longleftrightarrow> (\<forall>k<12. launch (attempts w + k) = None)"
proof (cases "\<forall>k<4. launch (attempts w + k) = None")
  case True
  have split: "(\<forall>k<12. launch (attempts w + k) = None) \<longleftrightarrow>
      (\<forall>k<4. launch (attempts w + k) = None) \<and> (\<forall>k<8. launch (attempts w + 4 + k) = None)"
    using all_below_add [of 4 8 "\<lambda>i. launch i = None" "attempts w"] by simp
  from True assms show ?thesis
    unfolding split
    by (subst acquire_continue_retry) (simp_all add: acquire_continue_round1)
next
  case False
  then obtain b where "fst (createBrowser launch w 0) = Some b"
    using createBrowser_some_success [of launch w] by blast
  then have "snd (acquire_continue launch conn (s, w) 0 AwaitCreate) = Returned b"
    by (simp only: acquire_continue_created snd_conv)
  moreover from False have "\<not> (\<forall>k<12. launch (attempts w + k) = None)"
    by (rule some_launch_succeeds) simp
  ultimately show ?thesis by simp
qed

lemma acquire_continue_all_fail:
  assumes "\<forall>k<12. launch (attempts w + k) = None" and "must_create s"
  shows "snd (fst (acquire_continue launch conn (s, w) 0 AwaitCreate)) =
           w\<lparr>attempts := attempts w + 12,
             delays := delays w @
               [2000, 4000, 8000, 3000, 2000, 4000, 8000, 3000, 2000, 4000, 8000]\<rparr>"
proof -
  from assms(1) have
    "(\<forall>k<4. launch (attempts w + k) = None) \<and> (\<forall>k<8. launch (attempts w + 4 + k) = None)"
    using all_below_add [of 4 8 "\<lambda>i. launch i = None" "attempts w"] by simp
  then have r0: "\<forall>k<4. launch (attempts w + k) = None"
    and "(\<forall>k<4. launch (attempts w + 4 + k) = None) \<and>
         (\<forall>k<4. launch (attempts w + 4 + 4 + k) = None)"
    using all_below_add [of 4 4 "\<lambda>i. launch i = None" "attempts w + 4"] by simp_all
  then have r1: "\<forall>k<4. launch (attempts w + 4 + k) = None"
    and r2: "\<forall>k<4. launch (attempts w + 4 + 4 + k) = None"
    by simp_all
  let ?s1 = "s\<lparr>creating := remove1 0 (creating s) @ [Suc 0],
                sleeping := remove1 (Suc 0) (sleeping s @ [Suc 0])\<rparr>"
  let ?w1 = "w\<lparr>attempts := attempts w + 4, delays := delays w @ [2000, 4000, 8000, 3000]\<rparr>"
  let ?s2 = "?s1\<lparr>creating := remove1 (Suc 0) (creating ?s1) @ [Suc (Suc 0)],
                  sleeping := remove1 (Suc (Suc 0)) (sleeping ?s1 @ [Suc (Suc 0)])\<rparr>"
  let ?w2 = "?w1\<lparr>attempts := attempts ?w1 + 4,
                  delays := delays ?w1 @ [2000, 4000, 8000, 3000]\<rparr>"
  have m1: "must_create ?s1" and m2: "must_create ?s2"
    using assms(2) by simp_all
  have a1: "\<forall>k<4. launch (attempts ?w1 + k) = None"
    using r1 by simp
  have a2: "\<forall>k<4. launch (attempts ?w2 + k) = None"
    using r2 by simp
  have "acquire_continue launch conn (s, w) 0 AwaitCreate =
        acquire_continue launch conn (?s1, ?w1) (Suc 0) AwaitCreate"
    using r0 assms(2) by (intro acquire_continue_retry) simp_all
  also have "\<dots> = acquire_continue launch conn (?s2, ?w2) (Suc (Suc 0)) AwaitCreate"
    using a1 m1 by (intro acquire_continue_retry) simp_all
  also have "\<dots> =
      ((?s2\<lparr>creating := remove1 (Suc (Suc 0)) (creating ?s2)\<rparr>,
        ?w2\<lparr>attempts := attempts ?w2 + 4, delays := delays ?w2 @ [2000, 4000, 8000]\<rparr>),
       Threw CreationFailed)"
    using a2 by (rule acquire_continue_last_failure)
  finally show ?thesis by simp
qed

lemma createBrowser_third_attempt:
  assumes "launch (attempts w) = None" and "launch (attempts w + 1) = None"
    and "launch (attempts w + 2) = Some b"
  shows "createBrowser launch w 0 =
           (Some b, w\<lparr>attempts := attempts w + 3, delays := delays w @ [2000, 4000]\<rparr>)"
  using assms by (simp add: createBrowser.simps numeral_2_eq_2)

lemma acquireBrowser_must_create:
  "must_create s \<Longrightarrow>
   acquireBrowser launch conn (s, w) =
     acquire_continue launch conn (s\<lparr>creating := creating s @ [0]\<rparr>, w) 0 AwaitCreate"
  by (simp add: acquireBrowser_def acquire_enter_must_create)

text \<open>
  C6, as the code has it.  In a pool that has to create a browser (not shutting down,
  none available, room left) and with no other request interleaved:
  one call of \<open>createBrowser\<close> fails exactly when four launches in a row fail, having
  paused 2 s, 4 s and 8 s between them; \<open>acquireBrowser\<close> then pauses 3 s and starts
  over, up to three such rounds, so the creation error reaches the caller of
  \<open>acquireBrowser\<close> exactly when twelve launches in a row fail, after the pauses
  2, 4, 8, 3, 2, 4, 8, 3, 2, 4, 8 seconds; and when the first two launches fail and the
  third succeeds, \<open>acquireBrowser\<close> returns that browser, added to the pool, after
  pauses of 2 s and 4 s.
\<close>

theorem creation_retry_rounds:
  assumes "\<not> isShuttingDown s" and "availableBrowsers s = []"
    and "int (length (browsers s)) < poolSize s"
  shows
    "(fst (createBrowser launch w 0) = None \<longleftrightarrow> (\<forall>k<4. launch (attempts w + k) = None)) \<and>
     ((\<forall>k<4. launch (attempts w + k) = None) \<longrightarrow>
        snd (createBrowser launch w 0) =
          w\<lparr>attempts := attempts w + 4, delays := delays w @ [2000, 4000, 8000]\<rparr>) \<and>
     (snd (acquireBrowser launch conn (s, w)) = Threw CreationFailed \<longleftrightarrow>
        (\<forall>k<12. launch (attempts w + k) = None)) \<and>
     ((\<forall>k<12. launch (attempts w + k) = None) \<longrightarrow>
        snd (fst (acquireBrowser launch conn (s, w))) =
          w\<lparr>attempts := attempts w + 12,
            delays := delays w @
              [2000, 4000, 8000, 3000, 2000, 4000, 8000, 3000, 2000, 4000, 8000]\<rparr>) \<and>
     (launch (attempts w) = None \<and> launch (attempts w + 1) = None \<and>
      launch (attempts w + 2) = Some b \<longrightarrow>
        snd (acquireBrowser launch conn (s, w)) = Returned b \<and>
        browsers (fst (fst (acquireBrowser launch conn (s, w)))) = browsers s @ [b] \<and>
        delays (snd (fst (acquireBrowser launch conn (s, w)))) = delays w @ [2000, 4000])"
proof -
  from assms have mc: "must_create s"
    by (simp add: must_create_def)
  then have mc': "must_create (s\<lparr>creating := creating s @ [0]\<rparr>)"
    by simp
  note eq = acquireBrowser_must_create [OF mc, of launch conn w]
  have p1: "fst (createBrowser launch w 0) = None \<longleftrightarrow>
              (\<forall>k<4. launch (attempts w + k) = None)"
    by (rule createBrowser_fails_iff)
  have p2: "(\<forall>k<4. launch (attempts w + k) = None) \<longrightarrow>
        snd (createBrowser launch w 0) =
          w\<lparr>attempts := attempts w + 4, delays := delays w @ [2000, 4000, 8000]\<rparr>"
    by (simp add: createBrowser_four_failures)
  have p3: "snd (acquireBrowser launch conn (s, w)) = Threw CreationFailed \<longleftrightarrow>
        (\<forall>k<12. launch (attempts w + k) = None)"
    unfolding eq using mc' by (rule acquire_continue_round0)
  have p4: "(\<forall>k<12. launch (attempts w + k) = None) \<longrightarrow>
        snd (fst (acquireBrowser launch conn (s, w))) =
          w\<lparr>attempts := attempts w + 12,
            delays := delays w @
              [2000, 4000, 8000, 3000, 2000, 4000, 8000, 3000, 2000, 4000, 8000]\<rparr>"
    unfolding eq using mc' by (simp add: acquire_continue_all_fail)
  have p5: "launch (attempts w) = None \<and> launch (attempts w + 1) = None \<and>
      launch (attempts w + 2) = Some b \<longrightarrow>
        snd (acquireBrowser launch conn (s, w)) = Returned b \<and>
        browsers (fst (fst (acquireBrowser launch conn (s, w)))) = browsers s @ [b] \<and>
        delays (snd (fst (acquireBrowser launch conn (s, w)))) = delays w @ [2000, 4000]"
  proof
    assume "launch (attempts w) = None \<and> launch (attempts w + 1) = None \<and>
      launch (attempts w + 2) = Some b"
    then have cb: "createBrowser launch w 0 =
           (Some b, w\<lparr>attempts := attempts w + 3, delays := delays w @ [2000, 4000]\<rparr>)"
      by (simp add: createBrowser_third_attempt)
    then have "fst (createBrowser launch w 0) = Some b"
      by simp
    then have "acquire_continue launch conn (s\<lparr>creating := creating s @ [0]\<rparr>, w) 0 AwaitCreate =
        ((fst (acquire_created (s\<lparr>creating := creating s @ [0]\<rparr>) 0 b),
          snd (createBrowser launch w 0)), Returned b)"
      by (rule acquire_continue_created)
    then show "snd (acquireBrowser launch conn (s, w)) = Returned b \<and>
        browsers (fst (fst (acquireBrowser launch conn (s, w)))) = browsers s @ [b] \<and>
        delays (snd (fst (acquireBrowser launch conn (s, w)))) = delays w @ [2000, 4000]"
      unfolding eq by (simp add: cb acquire_created_def)
  qed
  from p1 p2 p3 p4 p5 show ?thesis by blast
qed

theorem creation_retry_rounds_witness:
  "\<not> isShuttingDown (BrowserPool 1) \<and> availableBrowsers (BrowserPool 1) = [] \<and>
   int (length (browsers (BrowserPool 1))) < poolSize (BrowserPool 1) \<and>
   fails_first 2 (attempts clock0) = None \<and> fails_first 2 (attempts clock0 + 1) = None \<and>
   fails_first 2 (attempts clock0 + 2) = Some 2 \<and>
   snd (acquireBrowser (fails_first 2) alive (BrowserPool 1, clock0)) = Returned 2 \<and>
   browsers (fst (fst (acquireBrowser (fails_first 2) alive (BrowserPool 1, clock0)))) = [2] \<and>
   delays (snd (fst (acquireBrowser (fails_first 2) alive (BrowserPool 1, clock0))))
     = [2000, 4000] \<and>
   fst (createBrowser (fails_first 2) clock0 0) \<noteq> None \<and>
   snd (acquireBrowser (fails_first 2) alive (BrowserPool 1, clock0)) \<noteq> Threw CreationFailed"
proof -
  have h1: "\<not> isShuttingDown (BrowserPool 1)"
    and h2: "availableBrowsers (BrowserPool 1) = []"
    and h3: "int (length (browsers (BrowserPool 1))) < poolSize (BrowserPool 1)"
    by (simp_all add: BrowserPool_def)
  have l: "fails_first 2 (attempts clock0) = None \<and> fails_first 2 (attempts clock0 + 1) = None \<and>
           fails_first 2 (attempts clock0 + 2) = Some 2"
    by (simp add: fails_first_def clock0_def)
  have n4: "\<not> (\<forall>k<4. fails_first 2 (attempts clock0 + k) = None)"
  proof
    assume every: "\<forall>k<4. fails_first 2 (attempts clock0 + k) = None"
    from every [rule_format, of 2] have "fails_first 2 (attempts clock0 + 2) = None" by simp
    with l show False by simp
  qed
  have n12: "\<not> (\<forall>k<12. fails_first 2 (attempts clock0 + k) = None)"
  proof
    assume every: "\<forall>k<12. fails_first 2 (attempts clock0 + k) = None"
    from every [rule_format, of 2] have "fails_first 2 (attempts clock0 + 2) = None" by simp
    with l show False by simp
  qed
  note t = creation_retry_rounds
    [OF h1 h2 h3, where launch = "fails_first 2" and w = clock0 and conn = alive and b = 2]
  from t l have
    "snd (acquireBrowser (fails_first 2) alive (BrowserPool 1, clock0)) = Returned 2 \<and>
     browsers (fst (fst (acquireBrowser (fails_first 2) alive (BrowserPool 1, clock0))))
       = browsers (BrowserPool 1) @ [2] \<and>
     delays (snd (fst (acquireBrowser (fails_first 2) alive (BrowserPool 1, clock0))))
       = delays clock0 @ [2000, 4000]"
    by blast
  moreover from t n4 have "fst (createBrowser (fails_first 2) clock0 0) \<noteq> None"
    by blast
  moreover from t n12 have
    "snd (acquireBrowser (fails_first 2) alive (BrowserPool 1, clock0)) \<noteq> Threw CreationFailed"
    by blast
  ultimately show ?thesis
    using h1 h2 h3 l by (simp add: BrowserPool_def clock0_def)
qed

text \<open>
  C6, as it is written, fails: it bounds creation at the first launch and three retries,
  paused 2 s, 4 s and 8 s, before the caller of \<open>acquireBrowser\<close> sees the error.
  With a launcher that fails four times and succeeds the fifth time, \<open>createBrowser\<close>
  gives up after its three retries, yet no error reaches the caller of
  \<open>acquireBrowser\<close>: after a further pause of 3 s a fifth launch is made and its
  browser is returned.
\<close>

theorem creation_error_not_surfaced_after_three_retries:
  "fst (createBrowser (fails_first 4) clock0 0) = None \<and>
   snd (acquireBrowser (fails_first 4) alive (BrowserPool 1, clock0)) = Returned 4 \<and>
   snd (fst (acquireBrowser (fails_first 4) alive (BrowserPool 1, clock0)))
     = \<lparr>attempts = 5, delays = [2000, 4000, 8000, 3000]\<rparr>"
  by (simp add: pool_eval acquireBrowser_def acquire_continue.simps createBrowser.simps
        fails_first_def clock0_def acquire_create_failed_def acquire_wake_def)

subsection \<open>RequestQueue: bounded concurrency, FIFO dispatch, isolation of failures\<close>

lemma processQueue_inv: "queue_inv s \<Longrightarrow> queue_inv (processQueue s)"
  by (cases "queue s") (auto simp: queue_inv_def processQueue_def)

lemma processQueue_maxConcurrent [simp]: "maxConcurrent (processQueue s) = maxConcurrent s"
  by (simp add: processQueue_def)

lemma addRequest_inv: "queue_inv s \<Longrightarrow> queue_inv (addRequest s)"
  unfolding addRequest_def
  by (rule processQueue_inv) (simp add: queue_inv_def)

lemma handler_settles_inv:
  assumes "queue_inv s" and "t \<in> set (awaited s)"
  shows "queue_inv (handler_settles s t r)"
  unfolding handler_settles_def
proof (rule processQueue_inv)
  from assms(2) have l1: "length (remove1 t (awaited s)) = length (awaited s) - 1"
    by (simp add: length_remove1)
  from assms(2) have l2: "0 < length (awaited s)"
    by (cases "awaited s") auto
  from l1 l2 have "int (length (remove1 t (awaited s))) = int (length (awaited s)) - 1"
    by linarith
  then show "queue_inv
     (s\<lparr>awaited := remove1 t (awaited s),
        settled := (settled s)[t := (case r of HandlerReturns \<Rightarrow> RequestResolved
                                      | HandlerThrows \<Rightarrow> RequestRejected)],
        running := running s - 1\<rparr>)"
    using assms(1) by (simp add: queue_inv_def)
qed

lemma queue_step_inv: "queue_inv s \<Longrightarrow> queue_inv (queue_step s ev)"
  by (cases ev) (simp_all add: addRequest_inv handler_settles_inv)

lemma queue_step_maxConcurrent [simp]: "maxConcurrent (queue_step s ev) = maxConcurrent s"
  by (cases ev) (simp_all add: addRequest_def handler_settles_def)

lemma queue_run_inv: "queue_inv s \<Longrightarrow> queue_inv (queue_run s evs)"
  unfolding queue_run_def
  by (induction evs arbitrary: s) (simp_all add: queue_step_inv)

lemma queue_run_maxConcurrent [simp]: "maxConcurrent (queue_run s evs) = maxConcurrent s"
  unfolding queue_run_def
  by (induction evs arbitrary: s) simp_all

lemma RequestQueue_inv: "0 \<le> n \<Longrightarrow> queue_inv (RequestQueue n)"
  by (simp add: queue_inv_def RequestQueue_def)

lemma handler_settles_result_irrelevant:
  "handler_settles s t r\<lparr>settled := xs\<rparr> = handler_settles s t r'\<lparr>settled := xs\<rparr>"
  by (simp add: handler_settles_def processQueue_def)

lemma processQueue_settled [simp]: "settled (processQueue s) = settled s"
  by (simp add: processQueue_def)

text \<open>
  C3.  For every sequence of \<open>addRequest\<close> calls and handler completions on a queue
  built with \<open>maxConcurrent \<ge> 0\<close>: \<open>running\<close> never exceeds \<open>maxConcurrent\<close> (also at
  the point inside \<open>finally\<close> where it has just been decremented); the handlers
  called so far, followed by the entries still queued, are the submissions \<open>0, 1, 2, ...\<close>
  in order, so dispatch is strictly first-in first-out and no entry is called twice; and a
  handler that throws rejects the promise of its own entry only, every other promise and
  the whole scheduling state being what they would be had it returned.
\<close>

theorem request_queue_bounded_fifo_isolated:
  assumes "0 \<le> n"
  shows
    "running (queue_run (RequestQueue n) evs) \<le> n \<and>
     running (queue_run (RequestQueue n) evs) - 1 \<le> n \<and>
     called (queue_run (RequestQueue n) evs) @ queue (queue_run (RequestQueue n) evs)
       = [0..<added (queue_run (RequestQueue n) evs)] \<and>
     distinct (called (queue_run (RequestQueue n) evs)) \<and>
     settled (handler_settles (queue_run (RequestQueue n) evs) t HandlerThrows)
       = (settled (queue_run (RequestQueue n) evs))[t := RequestRejected] \<and>
     handler_settles (queue_run (RequestQueue n) evs) t HandlerThrows
         \<lparr>settled := settled (handler_settles (queue_run (RequestQueue n) evs) t HandlerReturns)\<rparr>
       = handler_settles (queue_run (RequestQueue n) evs) t HandlerReturns"
proof -
  let ?s = "queue_run (RequestQueue n) evs"
  from assms have inv: "queue_inv ?s"
    by (simp add: queue_run_inv RequestQueue_inv)
  have mc: "maxConcurrent ?s = n"
    by (simp add: RequestQueue_def)
  from inv mc have bound: "running ?s \<le> n"
    by (simp add: queue_inv_def)
  from inv have fifo: "called ?s @ queue ?s = [0..<added ?s]"
    by (simp add: queue_inv_def)
  have "distinct (called ?s @ queue ?s)"
    unfolding fifo by simp
  then have dist: "distinct (called ?s)"
    by simp
  have own: "settled (handler_settles ?s t HandlerThrows) = (settled ?s)[t := RequestRejected]"
    by (simp add: handler_settles_def)
  have same: "handler_settles ?s t HandlerThrows
         \<lparr>settled := settled (handler_settles ?s t HandlerReturns)\<rparr>
       = handler_settles ?s t HandlerReturns"
    using handler_settles_result_irrelevant
      [where s = ?s and t = t and r = HandlerThrows and r' = HandlerReturns
         and xs = "settled (handler_settles ?s t HandlerReturns)"]
    by simp
  from bound fifo dist own same show ?thesis by simp
qed

theorem request_queue_bounded_fifo_isolated_witness:
  "(0::int) \<le> 2 \<and>
   running (queue_run (RequestQueue 2)
      [AddRequest, AddRequest, AddRequest, HandlerSettles 0 HandlerThrows]) = 2 \<and>
   called (queue_run (RequestQueue 2)
      [AddRequest, AddRequest, AddRequest, HandlerSettles 0 HandlerThrows]) = [0, 1, 2] \<and>
   settled (queue_run (RequestQueue 2)
      [AddRequest, AddRequest, AddRequest, HandlerSettles 0 HandlerThrows])
     = [RequestRejected, RequestPending, RequestPending] \<and>
   running (queue_run (RequestQueue 2)
      [AddRequest, AddRequest, AddRequest, HandlerSettles 0 HandlerThrows]) \<le> 2 \<and>
   distinct (called (queue_run (RequestQueue 2)
      [AddRequest, AddRequest, AddRequest, HandlerSettles 0 HandlerThrows]))"
proof -
  let ?s = "queue_run (RequestQueue 2)
      [AddRequest, AddRequest, AddRequest, HandlerSettles 0 HandlerThrows]"
  have h: "(0::int) \<le> 2" by simp
  have a: "running ?s = 2" by (simp add: queue_run_def RequestQueue_def addRequest_def processQueue_def handler_settles_def)
  have b: "called ?s = [0, 1, 2]" by (simp add: queue_run_def RequestQueue_def addRequest_def processQueue_def handler_settles_def)
  have c: "settled ?s = [RequestRejected, RequestPending, RequestPending]" by (simp add: queue_run_def RequestQueue_def addRequest_def processQueue_def handler_settles_def)
  from request_queue_bounded_fifo_isolated
    [OF h, of "[AddRequest, AddRequest, AddRequest, HandlerSettles 0 HandlerThrows]"]
  have "running ?s \<le> 2 \<and> distinct (called ?s)" by blast
  with a b c show ?thesis by simp
qed

subsection \<open>SimpleCache: lookups, round trip, expiry\<close>

text \<open>
  C5.  \<open>get(k)\<close> returns \<open>v\<close> exactly when the map holds an entry for \<open>k\<close> with value
  \<open>v\<close> whose expiry is not in the past; \<open>set(k, v)\<close> followed by \<open>get(k)\<close> no later than
  \<open>ttl\<close> after the \<open>set\<close> returns \<open>v\<close> itself; and once the time is past an entry's
  expiry, \<open>get(k)\<close> returns nothing and leaves a cache without the entry.
\<close>

theorem cache_get_set_expiry:
  "(fst (SimpleCache_get now k c) = Some v \<longleftrightarrow>
      (\<exists>item. cache c k = Some item \<and> item_value item = v \<and> \<not> now > expiresAt item)) \<and>
   (now' \<le> now + ttl c \<longrightarrow>
      fst (SimpleCache_get now' k (SimpleCache_set now k v c)) = Some v) \<and>
   (cache c k = Some item \<and> now > expiresAt item \<longrightarrow>
      SimpleCache_get now k c = (None, c\<lparr>cache := (cache c)(k := None)\<rparr>) \<and>
      cache (snd (SimpleCache_get now k c)) k = None)"
proof (intro conjI impI)
  show "fst (SimpleCache_get now k c) = Some v \<longleftrightarrow>
      (\<exists>item. cache c k = Some item \<and> item_value item = v \<and> \<not> now > expiresAt item)"
    by (cases "cache c k") (auto simp: SimpleCache_get_def)
next
  assume "now' \<le> now + ttl c"
  then show "fst (SimpleCache_get now' k (SimpleCache_set now k v c)) = Some v"
    by (simp add: SimpleCache_get_def SimpleCache_set_def)
next
  assume h: "cache c k = Some item \<and> now > expiresAt item"
  then show gone: "SimpleCache_get now k c = (None, c\<lparr>cache := (cache c)(k := None)\<rparr>)"
    by (simp add: SimpleCache_get_def)
  show "cache (snd (SimpleCache_get now k c)) k = None"
    unfolding gone by simp
qed

theorem cache_get_set_expiry_witness:
  "(1500::int) \<le> 1000 + ttl (SimpleCache 600000 :: string simple_cache) \<and>
   fst (SimpleCache_get 1500 ''k'' (SimpleCache_set 1000 ''k'' ''png-bytes'' (SimpleCache 600000)))
     = Some ''png-bytes'' \<and>
   cache (SimpleCache_set 1000 ''k'' ''png-bytes'' (SimpleCache 600000)) ''k''
     = Some \<lparr>item_value = ''png-bytes'', expiresAt = 601000\<rparr> \<and>
   fst (SimpleCache_get 601001 ''k'' (SimpleCache_set 1000 ''k'' ''png-bytes'' (SimpleCache 600000)))
     = None \<and>
   cache (snd (SimpleCache_get 601001 ''k''
       (SimpleCache_set 1000 ''k'' ''png-bytes'' (SimpleCache 600000)))) ''k'' = None"
proof -
  let ?e = "SimpleCache 600000 :: string simple_cache"
  let ?c = "SimpleCache_set 1000 ''k'' ''png-bytes'' ?e"
  have h1: "(1500::int) \<le> 1000 + ttl ?e"
    by (simp add: SimpleCache_def)
  have h2: "cache ?c ''k'' = Some \<lparr>item_value = ''png-bytes'', expiresAt = 601000\<rparr> \<and>
            (601001::int) > expiresAt \<lparr>item_value = ''png-bytes'', expiresAt = 601000\<rparr>"
    by (simp add: SimpleCache_set_def SimpleCache_def)
  from cache_get_set_expiry
    [where now = 1000 and now' = 1500 and k = "''k''" and v = "''png-bytes''" and c = ?e]
    h1
  have r1: "fst (SimpleCache_get 1500 ''k'' ?c) = Some ''png-bytes''"
    by blast
  from cache_get_set_expiry
    [where now = 601001 and k = "''k''" and c = ?c
       and item = "\<lparr>item_value = ''png-bytes'', expiresAt = 601000\<rparr>"]
    h2
  have r2: "SimpleCache_get 601001 ''k'' ?c = (None, ?c\<lparr>cache := (cache ?c)(''k'' := None)\<rparr>) \<and>
            cache (snd (SimpleCache_get 601001 ''k'' ?c)) ''k'' = None"
    by blast
  from r2 have r3: "fst (SimpleCache_get 601001 ''k'' ?c) = None"
    by simp
  from h1 h2 r1 r2 r3 show ?thesis by simp
qed

subsection \<open>The cache key is not injective\<close>


subsection \<open>Page readiness: which failures end the run, and when it returns\<close>











subsection \<open>Page readiness: when the scrolling loop ends\<close>

lemma scroll_loop_stuck:
  assumes ret: "scroll_loop scrollHeight viewportHeight currentPosition scrolls = Some n"
  shows "\<not> (viewportHeight \<le> 0 \<and> currentPosition < scrollHeight - viewportHeight)"
proof (rule scroll_loop.raw_induct
    [where P = "\<lambda>sh vh cur k y. \<not> (vh \<le> 0 \<and> cur < sh - vh)", OF _ ret])
  fix f :: "real \<Rightarrow> real \<Rightarrow> real \<Rightarrow> nat \<Rightarrow> nat option"
    and sh vh cur :: real and k y :: nat
  assume IH: "\<And>sh vh cur k y. f sh vh cur k = Some y \<Longrightarrow> \<not> (vh \<le> 0 \<and> cur < sh - vh)"
    and eq: "(if cur < sh - vh then f sh vh (cur + vh * (8 / 10)) (Suc k) else Some k) = Some y"
  show "\<not> (vh \<le> 0 \<and> cur < sh - vh)"
  proof
    assume h: "vh \<le> 0 \<and> cur < sh - vh"
    with eq have "f sh vh (cur + vh * (8 / 10)) (Suc k) = Some y"
      by simp
    then have "\<not> (vh \<le> 0 \<and> cur + vh * (8 / 10) < sh - vh)"
      by (rule IH)
    moreover from h have "vh * (8 / 10) \<le> 0"
      by (simp add: mult_le_0_iff)
    ultimately show False using h by simp
  qed
qed

lemma scroll_loop_never_returns:
  assumes "viewportHeight \<le> 0" and "currentPosition < scrollHeight - viewportHeight"
  shows "scroll_loop scrollHeight viewportHeight currentPosition scrolls = None"
proof (cases "scroll_loop scrollHeight viewportHeight currentPosition scrolls")
  case None
  then show ?thesis .
next
  case (Some n)
  from scroll_loop_stuck [OF Some] assms show ?thesis by simp
qed

lemma scroll_loop_bounded:
  assumes "0 < viewportHeight"
    and "scrollHeight - viewportHeight - currentPosition \<le> real m * (viewportHeight * 0.8)"
  shows "\<exists>n. scroll_loop scrollHeight viewportHeight currentPosition scrolls = Some n \<and>
             n \<le> scrolls + m"
  using assms(2)
proof (induction m arbitrary: currentPosition scrolls)
  case 0
  then have "\<not> currentPosition < scrollHeight - viewportHeight" by simp
  then show ?case by (subst scroll_loop.simps) simp
next
  case (Suc m)
  show ?case
  proof (cases "currentPosition < scrollHeight - viewportHeight")
    case False
    then show ?thesis by (subst scroll_loop.simps) simp
  next
    case True
    from Suc.prems have
      "scrollHeight - viewportHeight - (currentPosition + viewportHeight * 0.8)
         \<le> real m * (viewportHeight * 0.8)"
      by (simp add: algebra_simps)
    from Suc.IH [OF this, of "Suc scrolls"] obtain n
      where "scroll_loop scrollHeight viewportHeight (currentPosition + viewportHeight * 0.8)
               (Suc scrolls) = Some n" and "n \<le> Suc scrolls + m"
      by blast
    with True show ?thesis by (subst scroll_loop.simps) simp
  qed
qed

lemma scroll_loop_returns:
  assumes "0 < viewportHeight"
  shows "\<exists>n. scroll_loop scrollHeight viewportHeight currentPosition scrolls = Some n"
proof -
  from assms have step: "0 < viewportHeight * 0.8" by simp
  obtain m :: nat
    where "(scrollHeight - viewportHeight - currentPosition) / (viewportHeight * 0.8) \<le> real m"
    using real_arch_simple by blast
  with step have
    "scrollHeight - viewportHeight - currentPosition \<le> real m * (viewportHeight * 0.8)"
    by (simp add: pos_divide_le_eq)
  from scroll_loop_bounded [OF assms this] show ?thesis by blast
qed

lemma triggerLazyLoading_returns_iff:
  "triggerLazyLoading p \<noteq> None \<longleftrightarrow>
     (case metrics p of
        BodyMissing \<Rightarrow> True
      | Metrics scrollHeight viewportHeight \<Rightarrow>
          0 < viewportHeight \<or> \<not> 0 < scrollHeight - viewportHeight)"
proof (cases "metrics p")
  case BodyMissing
  then show ?thesis by (simp add: triggerLazyLoading_def)
next
  case (Metrics scrollHeight viewportHeight)
  show ?thesis
  proof (cases "0 < viewportHeight")
    case True
    from scroll_loop_returns [OF True, of scrollHeight 0 0] obtain n
      where "scroll_loop scrollHeight viewportHeight 0 0 = Some n" by blast
    with Metrics True show ?thesis by (simp add: triggerLazyLoading_def)
  next
    case flat: False
    show ?thesis
    proof (cases "0 < scrollHeight - viewportHeight")
      case True
      with flat have "scroll_loop scrollHeight viewportHeight 0 0 = None"
        by (intro scroll_loop_never_returns) simp_all
      with Metrics flat True show ?thesis by (simp add: triggerLazyLoading_def)
    next
      case False
      then have le: "scrollHeight \<le> viewportHeight"
        by simp
      then have "scroll_loop scrollHeight viewportHeight 0 0 = Some 0"
        by (subst scroll_loop.simps) simp
      with Metrics flat le show ?thesis
        by (simp add: triggerLazyLoading_def not_less)
    qed
  qed
qed


end
